theory Spec2Isabelle
  imports Main "HOL-Library.AList" "HOL-Library.Multiset"
begin

section \<open>The builtins manager (package builtins)\<close>

text \<open>
  \<^verbatim>\<open>cgm.Metrics\<close> is a Go map from metric name to metric. The metric itself
  (type and value) is opaque to the manager, so it is a type parameter.
\<close>

type_synonym 'v Metrics = "string \<rightharpoonup> 'v"

text \<open>
  A Go \<^verbatim>\<open>error\<close> is an interface with the one method \<^verbatim>\<open>Error() string\<close>;
  an error is modelled by its message. A function that returns \<^verbatim>\<open>error\<close>
  returns \<open>error option\<close>, with \<open>None\<close> for \<^verbatim>\<open>nil\<close>.
\<close>

type_synonym error = string

text \<open>
  What a call does besides returning: the lines handed to \<^verbatim>\<open>b.logger\<close>
  (level, message and string fields; for the error level the error and the message),
  the \<^verbatim>\<open>Collect()\<close> calls (named by the map key the collector is held under)
  and the writes to the process-wide stats map. The time values written by
  \<^verbatim>\<open>appstats.MapSet\<close> are wall-clock readings and are left out; the map name
  and the key are kept.
\<close>

datatype event =
    LogWarn string "(string \<times> string) list"
  | LogDebug string "(string \<times> string) list"
  | LogError error string
  | CallCollect string
  | MapSet string string

text \<open>
  The struct \<^verbatim>\<open>Builtins\<close>: the map \<^verbatim>\<open>collectors\<close> and the flag
  \<^verbatim>\<open>running\<close> (the logger is the event trace, the embedded mutex has no
  counterpart in a sequential model). The Go map is an association list: its keys are
  the builtin ids, and the order of the list is the order in which a
  \<^verbatim>\<open>range\<close> over the map visits the entries, which Go leaves unspecified.
  A Go map holds a key once; the lookup \<^verbatim>\<open>b.collectors[id]\<close> is \<open>map_of\<close>,
  which finds the first entry under a key, and assigning to the collector found is
  \<open>AList.update\<close>, which replaces that entry.

  The interface \<^verbatim>\<open>collector.Collector\<close> is declared outside the files at hand.
  A collector is a value of a type parameter \<open>'c\<close>, and its two methods are parameters
  of the model: \<open>c_Collect c\<close> gives the error returned by \<^verbatim>\<open>c.Collect()\<close> (if
  any) and the collector afterwards, \<open>c_Flush c\<close> the metrics returned by
  \<^verbatim>\<open>c.Flush()\<close>, which reads the collector and leaves it as it is (spec 4.1:
  a pure reader). \<^verbatim>\<open>Collect()\<close> is taken to return.
\<close>

record 'c Builtins =
  collectors :: "(string \<times> 'c) list"
  running :: bool

text \<open>
  The body of the goroutine started for one collector (the same function literal in
  both branches of \<^verbatim>\<open>Run\<close>): call \<^verbatim>\<open>Collect\<close>, log an error at
  error level with the id as message. Its last statement, \<^verbatim>\<open>wg.Done()\<close>, is the
  decrement of the wait group counter done by the caller below.
\<close>

definition goroutine ::
  "('c \<Rightarrow> error option \<times> 'c) \<Rightarrow> string \<Rightarrow> 'c \<Rightarrow> 'c \<times> event list" where
  "goroutine c_Collect ident c =
     (case c_Collect c of
        (None, c') \<Rightarrow> (c', [CallCollect ident])
      | (Some err, c') \<Rightarrow> (c', [CallCollect ident, LogError err ident]))"

text \<open>
  The loop \<^verbatim>\<open>for id, c := range b.collectors\<close> of the branch \<^verbatim>\<open>id == ""\<close>.
  Each goroutine works on its own collector, so the goroutines are run one after the
  other in the order of the range; the trace is one of the possible interleavings.
  The third component is the wait group counter: every goroutine that finishes takes
  one off.
\<close>

fun collect_all ::
  "('c \<Rightarrow> error option \<times> 'c) \<Rightarrow> (string \<times> 'c) list \<Rightarrow> int
     \<Rightarrow> (string \<times> 'c) list \<times> event list \<times> int" where
  "collect_all c_Collect [] wg = ([], [], wg)"
| "collect_all c_Collect ((ident, c) # cs) wg =
     (let (c', evs) = goroutine c_Collect ident c;
          (cs', evs', wg') = collect_all c_Collect cs (wg - 1)
      in ((ident, c') # cs', LogDebug ''collecting'' [(''builtin'', ident)] # evs @ evs', wg'))"

text \<open>
  \<^verbatim>\<open>func (b *Builtins) Run(id string) error\<close>. The result is the returned error
  (\<open>None\<close> is \<^verbatim>\<open>nil\<close>), the manager afterwards and the trace. The outer option
  is \<open>None\<close> when the call does not return: \<^verbatim>\<open>wg.Wait()\<close> returns only when the
  counter is zero, so a counter that is not zero once every started goroutine has
  finished blocks for ever (above zero) or has panicked (below zero).
\<close>

definition Run ::
  "('c \<Rightarrow> error option \<times> 'c) \<Rightarrow> 'c Builtins \<Rightarrow> string
     \<Rightarrow> (error option \<times> 'c Builtins \<times> event list) option" where
  "Run c_Collect b ident =
     (if length (collectors b) = 0 then Some (None, b, [])
      else if running b then Some (None, b, [LogWarn ''already in progress'' []])
      else
        let b1 = b\<lparr>running := True\<rparr>;
            (cs', evs, wg) =
              (if ident = '''' then
                 collect_all c_Collect (collectors b1) (0 + int (length (collectors b1)))
               else
                 (case map_of (collectors b1) ident of
                    Some c \<Rightarrow>
                      (let (c', evs) = goroutine c_Collect ident c
                       in (AList.update ident c' (collectors b1),
                           LogDebug ''collecting'' [(''builtin'', ident)] # evs,
                           (0 + 1) - 1))
                  | None \<Rightarrow>
                      (collectors b1, [LogWarn ''unknown builtin'' [(''id'', ident)]], 0)))
        in if wg \<noteq> 0 then None
           else Some (None, b1\<lparr>collectors := cs', running := False\<rparr>,
                      [MapSet ''builtins'' ''last_start''] @ evs @
                      [LogDebug ''all builtins done'' [],
                       MapSet ''builtins'' ''last_end'',
                       MapSet ''builtins'' ''last_duration'']))"

text \<open>The ids on which \<^verbatim>\<open>Collect()\<close> was called, in the order of the trace.\<close>

fun collect_calls :: "event list \<Rightarrow> string list" where
  "collect_calls [] = []"
| "collect_calls (CallCollect ident # evs) = ident # collect_calls evs"
| "collect_calls (_ # evs) = collect_calls evs"

text \<open>
  The fan-out of \<^verbatim>\<open>Run\<close> with its interleavings. Once the loop has called
  \<^verbatim>\<open>wg.Add\<close> and started a goroutine for every collector, the main goroutine stands
  at \<^verbatim>\<open>wg.Wait()\<close> (a goroutine that ran while the loop was still starting the
  others is a step taken from there). A state holds the goroutines that have not run yet (each with
  its collector), the collectors of those that have, as their \<^verbatim>\<open>Collect\<close> left
  them, the counter of the wait group, and whether \<^verbatim>\<open>wg.Wait()\<close> is still
  waiting.
\<close>

record 'c fan_out =
  pending :: "(string \<times> 'c) list"
  finished :: "(string \<times> 'c) list"
  counter :: int
  waiting :: bool

definition started :: "(string \<times> 'c) list \<Rightarrow> 'c fan_out" where
  "started cs = \<lparr>pending = cs, finished = [], counter = 0 + int (length cs), waiting = True\<rparr>"

text \<open>
  One goroutine runs to its end: \<^verbatim>\<open>Collect\<close>, the log line for an error, and
  \<^verbatim>\<open>wg.Done()\<close>. The goroutines share nothing but the logger and the counter, so
  the run of one of them is one step.
\<close>

definition finish :: "('c \<Rightarrow> error option \<times> 'c) \<Rightarrow> nat \<Rightarrow> 'c fan_out \<Rightarrow> 'c fan_out" where
  "finish c_Collect i s =
     (case pending s ! i of
        (ident, c) \<Rightarrow>
          s\<lparr>pending := take i (pending s) @ drop (Suc i) (pending s),
            finished := (ident, fst (goroutine c_Collect ident c)) # finished s,
            counter := counter s - 1\<rparr>)"

text \<open>
  The states one step away: any pending goroutine may be the next to run, and
  \<^verbatim>\<open>wg.Wait()\<close> returns when, and only when, the counter is zero. \<open>reaches\<close> is
  any number of steps, that is, any schedule.
\<close>

definition steps :: "('c \<Rightarrow> error option \<times> 'c) \<Rightarrow> 'c fan_out \<Rightarrow> 'c fan_out list" where
  "steps c_Collect s =
     map (\<lambda>i. finish c_Collect i s) [0..<length (pending s)] @
     (if waiting s \<and> counter s = 0 then [s\<lparr>waiting := False\<rparr>] else [])"

definition reaches :: "('c \<Rightarrow> error option \<times> 'c) \<Rightarrow> 'c fan_out \<Rightarrow> 'c fan_out \<Rightarrow> bool" where
  "reaches c_Collect = (\<lambda>s t. t \<in> set (steps c_Collect s))\<^sup>*\<^sup>*"

text \<open>
  What every schedule keeps true of a pass over the collectors \<open>cs\<close>: the counter is
  the number of pending goroutines, the finished and the pending collectors together
  are the collectors of the pass, and no goroutine is pending once
  \<^verbatim>\<open>wg.Wait()\<close> has returned.
\<close>

definition pass_invariant ::
  "('c \<Rightarrow> error option \<times> 'c) \<Rightarrow> (string \<times> 'c) list \<Rightarrow> 'c fan_out \<Rightarrow> bool" where
  "pass_invariant f cs s \<longleftrightarrow>
     counter s = int (length (pending s)) \<and>
     mset (finished s) + mset (map (\<lambda>(k, c). (k, snd (f c))) (pending s)) =
       mset (map (\<lambda>(k, c). (k, snd (f c))) cs) \<and>
     (waiting s \<or> pending s = [])"

text \<open>
  \<^verbatim>\<open>func (b *Builtins) Flush(id string) *cgm.Metrics\<close>. The inner loop assigns every
  entry of \<^verbatim>\<open>c.Flush()\<close> to \<^verbatim>\<open>metrics\<close>; the entries of one map have
  different names, so the loop is the override \<open>metrics ++ c_Flush c\<close> whatever the
  order of its range. The outer loop is a fold over the collectors in the order of the
  range: a later collector overwrites a name an earlier one wrote.
\<close>

definition Flush ::
  "('c \<Rightarrow> 'v Metrics) \<Rightarrow> 'c Builtins \<Rightarrow> string \<Rightarrow> 'v Metrics \<times> event list" where
  "Flush c_Flush b ident =
     (let evs = [MapSet ''builtins'' ''last_flush''];
          metrics = Map.empty
      in if length (collectors b) = 0 then (metrics, evs)
         else (fold (\<lambda>(_, c) metrics. metrics ++ c_Flush c) (collectors b) metrics, evs))"

section \<open>The pre-run hook of the root command (package cmd)\<close>

text \<open>
  \<^verbatim>\<open>zerolog.Level\<close>, the values the hook passes to \<^verbatim>\<open>SetGlobalLevel\<close>.
\<close>

datatype Level =
  DebugLevel | InfoLevel | WarnLevel | ErrorLevel | FatalLevel | PanicLevel | Disabled

text \<open>
  The three viper keys the hook reads, as viper hands them out:
  \<^verbatim>\<open>GetBool(config.KeyLogPretty)\<close>, \<^verbatim>\<open>GetBool(config.KeyDebug)\<close>, and for
  \<^verbatim>\<open>config.KeyLogLevel\<close> the string of \<^verbatim>\<open>GetString\<close> when
  \<^verbatim>\<open>IsSet\<close> holds and \<open>None\<close> when it does not.
\<close>

record viper =
  KeyLogPretty :: bool
  KeyDebug :: bool
  KeyLogLevel :: "string option"

text \<open>
  What the hook reads and writes: the viper store, zerolog's global level, whether
  \<^verbatim>\<open>log.Logger\<close> has been replaced by the console writer, and the debug lines
  handed to the logger (message and string fields).
\<close>

record logging =
  store :: viper
  GlobalLevel :: Level
  ConsoleWriter :: bool
  debug_lines :: "(string \<times> (string \<times> string) list) list"

text \<open>
  \<^verbatim>\<open>PersistentPreRunE\<close> of \<^verbatim>\<open>RootCmd\<close>. The result is the returned error
  (\<open>None\<close> is \<^verbatim>\<open>nil\<close>, \<open>Some m\<close> an error whose message is \<open>m\<close>) and the
  state afterwards. \<^verbatim>\<open>errors.Errorf("Unknown log level (%s)", level)\<close> puts the
  string between the brackets unchanged.
\<close>

definition PersistentPreRunE :: "logging \<Rightarrow> error option \<times> logging" where
  "PersistentPreRunE s0 =
     (let s = (if KeyLogPretty (store s0) then s0\<lparr>ConsoleWriter := True\<rparr> else s0)
      in if KeyDebug (store s) then
           (None,
            s\<lparr>store := (store s)\<lparr>KeyLogLevel := Some ''debug''\<rparr>,
              GlobalLevel := DebugLevel,
              debug_lines := debug_lines s @ [(''--debug flag, forcing debug log level'', [])]\<rparr>)
         else
           (case KeyLogLevel (store s) of
              None \<Rightarrow> (None, s)
            | Some level \<Rightarrow>
                (case (if level = ''panic'' then Some PanicLevel
                       else if level = ''fatal'' then Some FatalLevel
                       else if level = ''error'' then Some ErrorLevel
                       else if level = ''warn'' then Some WarnLevel
                       else if level = ''info'' then Some InfoLevel
                       else if level = ''debug'' then Some DebugLevel
                       else if level = ''disabled'' then Some Disabled
                       else None) of
                   None \<Rightarrow> (Some (''Unknown log level ('' @ level @ '')''), s)
                 | Some l \<Rightarrow>
                     (None,
                      s\<lparr>GlobalLevel := l,
                        debug_lines := debug_lines s @ [(''Logging level'', [(''log-level'', level)])]\<rparr>))))"

text \<open>
  \<^verbatim>\<open>PreRunE\<close> of \<^verbatim>\<open>RootCmd\<close>, which cobra runs after the hook above and
  before \<^verbatim>\<open>Run\<close>. Its parameters are \<^verbatim>\<open>GetBool(config.KeyShowVersion)\<close>,
  \<^verbatim>\<open>GetBool(config.KeyShowConfig)\<close> and the result of \<^verbatim>\<open>config.Validate()\<close>.
  It either ends the process (\<^verbatim>\<open>os.Exit(0)\<close> after printing the version or the
  configuration) or returns the error of the validation; the line \<^verbatim>\<open>Starting\<close> it
  logs before the validation is left out.
\<close>

datatype outcome = Exit int | Return "error option"

definition PreRunE :: "bool \<Rightarrow> bool \<Rightarrow> error option \<Rightarrow> outcome" where
  "PreRunE show_version show_config validate =
     (if show_version then Exit 0
      else if show_config then Exit 0
      else (case validate of Some err \<Rightarrow> Return (Some err) | None \<Rightarrow> Return None))"

section \<open>Validation of the configuration (package config)\<close>

text \<open>
  The options \<^verbatim>\<open>Validate\<close> is tested with in \<^verbatim>\<open>TestValidate\<close>, as
  \<^verbatim>\<open>viper.GetString\<close> hands them out (an option that was never set is the empty
  string).
\<close>

record options =
  KeyPluginDir :: string
  KeyListen :: string
  KeySSLListen :: string
  KeySSLCertFile :: string
  KeySSLKeyFile :: string

text \<open>
  What validation asks of the outside world. \<open>listen_error spec\<close> is the message
  of the error of parsing a listen specification \<^verbatim>\<open>[IP]:[PORT]\<close> (\<open>None\<close>: the
  specification is well formed), \<open>dir_error path\<close> the message of the error of
  looking at \<open>path\<close> as a directory (\<open>None\<close>: it is an existing directory), and
  \<open>file_error path\<close> the same for a file.
\<close>

record world =
  listen_error :: "string \<Rightarrow> error option"
  dir_error :: "string \<Rightarrow> error option"
  file_error :: "string \<Rightarrow> error option"

text \<open>
  \<^verbatim>\<open>errors.Wrap(err, message)\<close> of \<^verbatim>\<open>github.com/pkg/errors\<close>: the message of
  the result is \<^verbatim>\<open>message + ": " + err.Error()\<close>.
\<close>

definition Wrap :: "error \<Rightarrow> string \<Rightarrow> error" where
  "Wrap err message = message @ '': '' @ err"

text \<open>
  The function \<^verbatim>\<open>config.Validate\<close> and the helpers it calls are missing from the
  sources; only its test \<^verbatim>\<open>TestValidate\<close> and its caller \<^verbatim>\<open>PreRunE\<close> are
  there. The definitions below model it from the spec (a \<^verbatim>\<open>ConfigError\<close> refuses
  to start; the configuration record has a listen address, a TLS listen address, TLS
  cert and key paths and a plugin directory; HTTPS requires cert and key files) and
  from what the test expects: the order of the checks, the prefixes and the messages.
  The checks of the API, reverse and StatsD options, which neither the spec nor the
  test describes, are left out. A result is the message of the returned error,
  \<open>None\<close> for \<^verbatim>\<open>nil\<close>.
\<close>

text \<open>
  Modelled from the spec: the check of the plugin directory, missing from the sources.
  An empty path is refused with the message of the first call of the test; any other
  path has to be an existing directory.
\<close>

definition plugin_directory :: "world \<Rightarrow> options \<Rightarrow> error option" where
  "plugin_directory w cfg =
     (if KeyPluginDir cfg = '''' then
        Some (''Invalid plugin directory ('' @ KeyPluginDir cfg @ '')'')
      else dir_error w (KeyPluginDir cfg))"

text \<open>
  Modelled from the spec: the check of the listen address, missing from the sources.
  An empty address stands for the default (the test resets the option to the empty
  string to make it valid again); any other has to be a well-formed specification.
\<close>

definition server_settings :: "world \<Rightarrow> options \<Rightarrow> error option" where
  "server_settings w cfg =
     (if KeyListen cfg = '''' then None else listen_error w (KeyListen cfg))"

text \<open>
  Modelled from the spec: the check of a certificate or key file, missing from the
  sources. An empty name is refused with the message of the fifth call of the test;
  any other name has to be an existing file.
\<close>

definition verify_file :: "world \<Rightarrow> string \<Rightarrow> error option" where
  "verify_file w fileName =
     (if fileName = '''' then Some ''Invalid file name (empty)'' else file_error w fileName)"

text \<open>
  Modelled from the spec: the check of the SSL listener, missing from the sources.
  Setting the SSL listen address enables SSL (the description of the flag
  \<^verbatim>\<open>ssl-listen\<close>); then the address has to be a well-formed specification (fourth
  call of the test), and HTTPS requires the certificate file (fifth call, prefix
  \<^verbatim>\<open>SSL cert\<close>) and the key file. The prefix \<^verbatim>\<open>SSL key\<close> of the key file's
  error is by analogy with the certificate's.
\<close>

definition ssl_server_settings :: "world \<Rightarrow> options \<Rightarrow> error option" where
  "ssl_server_settings w cfg =
     (if KeySSLListen cfg = '''' then None
      else
        (case listen_error w (KeySSLListen cfg) of
           Some err \<Rightarrow> Some err
         | None \<Rightarrow>
             (case verify_file w (KeySSLCertFile cfg) of
                Some err \<Rightarrow> Some (Wrap err ''SSL cert'')
              | None \<Rightarrow>
                  (case verify_file w (KeySSLKeyFile cfg) of
                     Some err \<Rightarrow> Some (Wrap err ''SSL key'')
                   | None \<Rightarrow> None))))"

text \<open>
  Modelled from the spec: \<^verbatim>\<open>config.Validate\<close>, missing from the sources. The
  checks run in the order of the test's calls and the first error is returned under
  the prefix the test expects: \<^verbatim>\<open>plugin directory config\<close>,
  \<^verbatim>\<open>server config\<close>, \<^verbatim>\<open>ssl server config\<close>.
\<close>

definition Validate :: "world \<Rightarrow> options \<Rightarrow> error option" where
  "Validate w cfg =
     (case plugin_directory w cfg of
        Some err \<Rightarrow> Some (Wrap err ''plugin directory config'')
      | None \<Rightarrow>
          (case server_settings w cfg of
             Some err \<Rightarrow> Some (Wrap err ''server config'')
           | None \<Rightarrow>
               (case ssl_server_settings w cfg of
                  Some err \<Rightarrow> Some (Wrap err ''ssl server config'')
                | None \<Rightarrow> None)))"

text \<open>
  The world of \<^verbatim>\<open>TestValidate\<close>: the directory \<^verbatim>\<open>testdata\<close> with the files
  \<^verbatim>\<open>ssl_test.pem\<close> and \<^verbatim>\<open>ssl_test.key\<close>, and the two listen specifications
  the test uses. The message for \<^verbatim>\<open>1.2.3\<close> is the one the test expects; the
  messages for other paths and specifications are not fixed by the test and stand for
  any failure.
\<close>

definition test_world :: world where
  "test_world =
     \<lparr>listen_error = (\<lambda>spec.
        if spec = ''127.0.0.1:2610'' then None
        else Some (''Invalid IP address format specified '' @ [CHR 0x27] @ spec @ [CHR 0x27])),
      dir_error = (\<lambda>path. if path = ''testdata'' then None else Some ''not a directory''),
      file_error = (\<lambda>path.
        if path = ''testdata/ssl_test.pem'' \<or> path = ''testdata/ssl_test.key'' then None
        else Some ''not a file'')\<rparr>"

text \<open>The options at the start of \<^verbatim>\<open>TestValidate\<close>: nothing has been set.\<close>

definition test_options :: options where
  "test_options =
     \<lparr>KeyPluginDir = '''', KeyListen = '''', KeySSLListen = '''',
      KeySSLCertFile = '''', KeySSLKeyFile = ''''\<rparr>"

section \<open>Values for the examples\<close>

text \<open>
  A collector whose state is a flag and its cached metrics: \<^verbatim>\<open>Collect\<close> fails
  when the flag is set and leaves the cache alone, and adds one to every cached value
  otherwise; \<^verbatim>\<open>Flush\<close> returns the cache. The manager of the examples holds two
  of them, which share the metric name \<^verbatim>\<open>load\<close>.
\<close>

definition demo_Collect ::
  "bool \<times> (string \<times> nat) list \<Rightarrow> error option \<times> (bool \<times> (string \<times> nat) list)" where
  "demo_Collect c =
     (if fst c then (Some ''probe failed'', c)
      else (None, (fst c, map (\<lambda>(name, v). (name, v + 1)) (snd c))))"

definition demo_Flush :: "bool \<times> (string \<times> nat) list \<Rightarrow> nat Metrics" where
  "demo_Flush c = map_of (snd c)"

definition demo_builtins :: "(bool \<times> (string \<times> nat) list) Builtins" where
  "demo_builtins =
     \<lparr>collectors = [(''cpu'', (False, [(''load'', 1), (''idle'', 5)])),
                    (''vm'', (True, [(''load'', 7)]))],
      running = False\<rparr>"


text \<open>
  The logging state the hook starts from: \<^verbatim>\<open>init()\<close> of package \<^verbatim>\<open>cmd\<close> has set the
  global level to \<^verbatim>\<open>zerolog.InfoLevel\<close> and the logger writes plain lines.
\<close>

definition init_logging :: "viper \<Rightarrow> logging" where
  "init_logging v = \<lparr>store = v, GlobalLevel = InfoLevel, ConsoleWriter = False, debug_lines = []\<rparr>"

section \<open>Properties of the builtins manager\<close>

subsection \<open>One goroutine, and the loop over all collectors\<close>

lemma goroutine_fst: "fst (goroutine f k c) = snd (f c)"
  by (simp add: goroutine_def split: prod.splits option.splits)

lemma goroutine_calls: "collect_calls (snd (goroutine f k c)) = [k]"
  by (simp add: goroutine_def split: prod.splits option.splits)

lemma goroutine_error: "fst (f c) = Some err \<Longrightarrow> LogError err k \<in> set (snd (goroutine f k c))"
  by (auto simp add: goroutine_def split: prod.splits option.splits)

lemma map_of_Some_key: "map_of cs k = Some c \<Longrightarrow> k \<in> fst ` set cs"
  by (metis domI dom_map_of_conv_image_fst)

lemma collect_calls_append: "collect_calls (xs @ ys) = collect_calls xs @ collect_calls ys"
  by (induction xs rule: collect_calls.induct) simp_all

lemma collect_all_collectors:
  "fst (collect_all f cs wg) = map (\<lambda>(k, c). (k, snd (f c))) cs"
proof (induction cs arbitrary: wg)
  case Nil
  show ?case by simp
next
  case (Cons p cs)
  obtain k c where p: "p = (k, c)" by (cases p)
  obtain c' evs where g: "goroutine f k c = (c', evs)" by (cases "goroutine f k c")
  obtain cs' evs' wg' where r: "collect_all f cs (wg - 1) = (cs', evs', wg')"
    by (cases "collect_all f cs (wg - 1)")
  have "c' = snd (f c)" using goroutine_fst[of f k c] g by simp
  moreover have "cs' = map (\<lambda>(k, c). (k, snd (f c))) cs" using Cons.IH[of "wg - 1"] r by simp
  ultimately show ?case by (simp add: p g r)
qed

lemma collect_all_wg:
  "snd (snd (collect_all f cs wg)) = wg - int (length cs)"
proof (induction cs arbitrary: wg)
  case Nil
  show ?case by simp
next
  case (Cons p cs)
  obtain k c where p: "p = (k, c)" by (cases p)
  obtain c' evs where g: "goroutine f k c = (c', evs)" by (cases "goroutine f k c")
  obtain cs' evs' wg' where r: "collect_all f cs (wg - 1) = (cs', evs', wg')"
    by (cases "collect_all f cs (wg - 1)")
  have "wg' = wg - 1 - int (length cs)" using Cons.IH[of "wg - 1"] r by simp
  then show ?case by (simp add: p g r)
qed

lemma collect_all_calls:
  "collect_calls (fst (snd (collect_all f cs wg))) = map fst cs"
proof (induction cs arbitrary: wg)
  case Nil
  show ?case by simp
next
  case (Cons p cs)
  obtain k c where p: "p = (k, c)" by (cases p)
  obtain c' evs where g: "goroutine f k c = (c', evs)" by (cases "goroutine f k c")
  obtain cs' evs' wg' where r: "collect_all f cs (wg - 1) = (cs', evs', wg')"
    by (cases "collect_all f cs (wg - 1)")
  have "collect_calls evs = [k]" using goroutine_calls[of f k c] g by simp
  moreover have "collect_calls evs' = map fst cs" using Cons.IH[of "wg - 1"] r by simp
  ultimately show ?case by (simp add: p g r collect_calls_append)
qed

lemma collect_all_errors:
  "(k, c) \<in> set cs \<Longrightarrow> fst (f c) = Some err \<Longrightarrow>
     LogError err k \<in> set (fst (snd (collect_all f cs wg)))"
proof (induction cs arbitrary: wg)
  case Nil
  then show ?case by simp
next
  case (Cons p cs)
  obtain k0 c0 where p: "p = (k0, c0)" by (cases p)
  obtain c' evs where g: "goroutine f k0 c0 = (c', evs)" by (cases "goroutine f k0 c0")
  obtain cs' evs' wg' where r: "collect_all f cs (wg - 1) = (cs', evs', wg')"
    by (cases "collect_all f cs (wg - 1)")
  show ?case
  proof (cases "(k, c) = (k0, c0)")
    case True
    then have "LogError err k \<in> set evs"
      using goroutine_error[of f c err k] Cons.prems(2) g by simp
    then show ?thesis by (simp add: p g r)
  next
    case False
    then have "(k, c) \<in> set cs" using Cons.prems(1) p by auto
    then have "LogError err k \<in> set evs'"
      using Cons.IH[of "wg - 1"] Cons.prems(2) r by simp
    then show ?thesis by (simp add: p g r)
  qed
qed

subsection \<open>The branches of Run\<close>

lemma Run_empty: "collectors b = [] \<Longrightarrow> Run f b ident = Some (None, b, [])"
  by (simp add: Run_def)

lemma Run_running:
  "collectors b \<noteq> [] \<Longrightarrow> running b \<Longrightarrow>
     Run f b ident = Some (None, b, [LogWarn ''already in progress'' []])"
  by (simp add: Run_def)

lemma Run_all:
  assumes "collectors b \<noteq> []" and "\<not> running b"
  shows "Run f b '''' =
     Some (None,
           b\<lparr>collectors := map (\<lambda>(k, c). (k, snd (f c))) (collectors b), running := False\<rparr>,
           [MapSet ''builtins'' ''last_start''] @
           fst (snd (collect_all f (collectors b) (int (length (collectors b))))) @
           [LogDebug ''all builtins done'' [], MapSet ''builtins'' ''last_end'',
            MapSet ''builtins'' ''last_duration''])"
proof -
  obtain cs' evs wg where r:
    "collect_all f (collectors b) (int (length (collectors b))) = (cs', evs, wg)"
    by (cases "collect_all f (collectors b) (int (length (collectors b)))")
  have "wg = 0" using collect_all_wg[of f "collectors b" "int (length (collectors b))"] r by simp
  moreover have "cs' = map (\<lambda>(k, c). (k, snd (f c))) (collectors b)"
    using collect_all_collectors[of f "collectors b" "int (length (collectors b))"] r by simp
  ultimately show ?thesis using assms r by (simp add: Run_def)
qed

lemma Run_one:
  assumes "\<not> running b" and "ident \<noteq> ''''" and "map_of (collectors b) ident = Some c"
  shows "Run f b ident =
     Some (None,
           b\<lparr>collectors := AList.update ident (snd (f c)) (collectors b), running := False\<rparr>,
           [MapSet ''builtins'' ''last_start'', LogDebug ''collecting'' [(''builtin'', ident)]] @
           snd (goroutine f ident c) @
           [LogDebug ''all builtins done'' [], MapSet ''builtins'' ''last_end'',
            MapSet ''builtins'' ''last_duration''])"
proof -
  obtain c' evs where g: "goroutine f ident c = (c', evs)" by (cases "goroutine f ident c")
  have "c' = snd (f c)" using goroutine_fst[of f ident c] g by simp
  moreover have "collectors b \<noteq> []" using assms(3) by auto
  ultimately show ?thesis using assms g by (simp add: Run_def)
qed

lemma Run_unknown:
  assumes "collectors b \<noteq> []" and "\<not> running b" and "ident \<noteq> ''''"
    and "map_of (collectors b) ident = None"
  shows "Run f b ident =
     Some (None, b,
           [MapSet ''builtins'' ''last_start'', LogWarn ''unknown builtin'' [(''id'', ident)],
            LogDebug ''all builtins done'' [], MapSet ''builtins'' ''last_end'',
            MapSet ''builtins'' ''last_duration''])"
  using assms by (simp add: Run_def)

subsection \<open>The schedules of the fan-out\<close>

text \<open>
  Whatever the schedule, \<^verbatim>\<open>wg.Wait()\<close> returns only when every goroutine has run, the
  collectors are then as the loop of the sequential model leaves them, and some
  schedule does let \<^verbatim>\<open>wg.Wait()\<close> return.
\<close>

lemma mset_remove_nth:
  "i < length xs \<Longrightarrow> mset (take i xs @ drop (Suc i) xs) + {#xs ! i#} = mset xs"
  by (metis add_mset_add_single id_take_nth_drop mset.simps(2) mset_append
      union_mset_add_mset_right)

lemma finish_invariant:
  assumes "i < length (pending s)" and "pass_invariant f cs s"
  shows "pass_invariant f cs (finish f i s)"
proof -
  obtain k c where kc: "pending s ! i = (k, c)" by (cases "pending s ! i")
  let ?rest = "take i (pending s) @ drop (Suc i) (pending s)"
  have "mset (pending s) = mset ?rest + {#(k, c)#}"
    using mset_remove_nth[OF assms(1)] kc by simp
  then have "mset (map (\<lambda>(k, c). (k, snd (f c))) (pending s)) =
      mset (map (\<lambda>(k, c). (k, snd (f c))) ?rest) + {#(k, snd (f c))#}"
    by (metis (mono_tags, lifting) case_prod_conv image_mset_add_mset image_mset_union
        image_mset_empty mset_map)
  moreover have "waiting s" using assms by (auto simp add: pass_invariant_def)
  moreover have "int (length ?rest) = counter s - 1"
    using assms by (simp add: pass_invariant_def)
  ultimately show ?thesis
    using assms(2) by (simp add: pass_invariant_def finish_def kc goroutine_fst)
qed

lemma steps_invariant:
  assumes "t \<in> set (steps f s)" and "pass_invariant f cs s"
  shows "pass_invariant f cs t"
proof -
  consider i where "i < length (pending s)" "t = finish f i s"
    | "waiting s" "counter s = 0" "t = s\<lparr>waiting := False\<rparr>"
    using assms(1) by (auto simp add: steps_def split: if_splits)
  then show ?thesis
  proof cases
    case 1
    then show ?thesis using finish_invariant assms(2) by blast
  next
    case 2
    then show ?thesis using assms(2) by (auto simp add: pass_invariant_def)
  qed
qed

lemma reaches_invariant:
  assumes "reaches f (started cs) s"
  shows "pass_invariant f cs s"
  using assms unfolding reaches_def
proof (induction rule: rtranclp_induct)
  case base
  show ?case by (simp add: pass_invariant_def started_def)
next
  case (step s t)
  then show ?case using steps_invariant by blast
qed

lemma Wait_after_all:
  assumes "reaches f (started cs) s" and "\<not> waiting s"
  shows "pending s = [] \<and> mset (finished s) = mset (map (\<lambda>(k, c). (k, snd (f c))) cs)"
  using reaches_invariant[OF assms(1)] assms(2) by (auto simp add: pass_invariant_def)

lemma Wait_returns_from:
  assumes "waiting s" and "counter s = int (length (pending s))"
  shows "\<exists>t. reaches f s t \<and> \<not> waiting t"
  using assms
proof (induction "length (pending s)" arbitrary: s)
  case 0
  then have "s\<lparr>waiting := False\<rparr> \<in> set (steps f s)" by (simp add: steps_def)
  then have "reaches f s (s\<lparr>waiting := False\<rparr>)" unfolding reaches_def by blast
  then show ?case by (intro exI[of _ "s\<lparr>waiting := False\<rparr>"]) simp
next
  case (Suc n)
  let ?s' = "finish f 0 s"
  have "0 < length (pending s)" using Suc.hyps(2) by linarith
  then have first: "?s' \<in> set (steps f s)" by (simp add: steps_def)
  have "n = length (pending ?s')" "waiting ?s'" "counter ?s' = int (length (pending ?s'))"
    using Suc.hyps(2) Suc.prems by (auto simp add: finish_def split: prod.splits)
  then obtain t where "reaches f ?s' t" "\<not> waiting t" using Suc.hyps(1) by blast
  then have "reaches f s t" using first unfolding reaches_def
    by (meson converse_rtranclp_into_rtranclp)
  then show ?case using \<open>\<not> waiting t\<close> by blast
qed

lemma Wait_returns: "\<exists>s. reaches f (started cs) s \<and> \<not> waiting s"
  by (rule Wait_returns_from) (simp_all add: started_def)

subsection \<open>The re-entrancy guard\<close>

text \<open>
  C1. In every state of the manager whose \<^verbatim>\<open>running\<close> flag is set, \<^verbatim>\<open>Run(id)\<close>
  returns, its error is \<^verbatim>\<open>nil\<close>, the manager (the collectors and the flag) is
  as before, \<^verbatim>\<open>Collect\<close> is called on no collector, and nothing of a new pass
  happens: the trace holds at most the warning \<^verbatim>\<open>already in progress\<close>, so no
  start time is recorded and no goroutine is started.
\<close>

theorem Run_reentrancy_guard:
  assumes "running b"
  shows "\<exists>evs. Run c_Collect b ident = Some (None, b, evs) \<and> collect_calls evs = []
           \<and> set evs \<subseteq> {LogWarn ''already in progress'' []}"
proof (cases "collectors b = []")
  case True
  then show ?thesis by (simp add: Run_empty)
next
  case False
  then show ?thesis using assms by (simp add: Run_running)
qed

text \<open>
  The guard at work: the manager of the examples with a run in progress, asked to run
  the builtin \<^verbatim>\<open>cpu\<close>.
\<close>

theorem Run_reentrancy_guard_witness:
  "running (demo_builtins\<lparr>running := True\<rparr>) \<and>
   Run demo_Collect (demo_builtins\<lparr>running := True\<rparr>) ''cpu'' =
     Some (None, demo_builtins\<lparr>running := True\<rparr>, [LogWarn ''already in progress'' []])"
  using Run_reentrancy_guard[of "demo_builtins\<lparr>running := True\<rparr>" demo_Collect "''cpu''"]
  by (simp add: Run_def demo_builtins_def)

subsection \<open>Errors of single collectors\<close>

text \<open>
  C3. For every id, every state of the manager and every behaviour of the collectors'
  \<^verbatim>\<open>Collect\<close> (\<open>c_Collect\<close> is arbitrary, so any collector may return an
  error), \<^verbatim>\<open>Run(id)\<close> returns and its error is \<^verbatim>\<open>nil\<close>. An error returned by
  the \<^verbatim>\<open>Collect\<close> of a collector that was called is logged at error level under
  the collector's id, and it stops no other call: the \<^verbatim>\<open>Collect\<close> calls of a
  \<^verbatim>\<open>Run\<close> are fixed by the manager and the id alone (all held collectors for the
  empty id, the one held under the id otherwise, none behind the two guards), whatever
  any \<^verbatim>\<open>Collect\<close> returns.
\<close>

theorem Run_collect_errors_contained:
  "\<exists>b' evs. Run c_Collect b ident = Some (None, b', evs) \<and>
     (\<forall>k c err. k \<in> set (collect_calls evs) \<longrightarrow> map_of (collectors b) k = Some c \<longrightarrow>
        fst (c_Collect c) = Some err \<longrightarrow> LogError err k \<in> set evs) \<and>
     collect_calls evs =
       (if collectors b = [] \<or> running b then []
        else if ident = '''' then map fst (collectors b)
        else if ident \<in> fst ` set (collectors b) then [ident]
        else [])"
proof -
  consider (empty) "collectors b = []"
    | (busy) "collectors b \<noteq> []" "running b"
    | (all) "collectors b \<noteq> []" "\<not> running b" "ident = ''''"
    | (one) c where "\<not> running b" "ident \<noteq> ''''" "map_of (collectors b) ident = Some c"
    | (unknown) "collectors b \<noteq> []" "\<not> running b" "ident \<noteq> ''''"
        "map_of (collectors b) ident = None"
    by (cases "map_of (collectors b) ident") auto
  then show ?thesis
  proof cases
    case empty
    then show ?thesis by (simp add: Run_empty)
  next
    case busy
    then show ?thesis by (simp add: Run_running)
  next
    case all
    let ?evs = "fst (snd (collect_all c_Collect (collectors b) (int (length (collectors b)))))"
    have calls: "collect_calls ?evs = map fst (collectors b)" by (rule collect_all_calls)
    have "LogError err k \<in> set ?evs"
      if "map_of (collectors b) k = Some c" "fst (c_Collect c) = Some err" for k c err
      using that collect_all_errors[of k c "collectors b" c_Collect err] map_of_SomeD by fast
    then show ?thesis using all calls by (simp add: Run_all collect_calls_append)
  next
    case one
    have held: "ident \<in> fst ` set (collectors b)"
      using one(3) by (rule map_of_Some_key)
    then have some: "collectors b \<noteq> []" by auto
    have "collect_calls (snd (goroutine c_Collect ident c)) = [ident]" by (rule goroutine_calls)
    moreover have "LogError err ident \<in> set (snd (goroutine c_Collect ident c))"
      if "fst (c_Collect c) = Some err" for err
      using that by (rule goroutine_error)
    ultimately show ?thesis using one held some by (simp add: Run_one collect_calls_append)
  next
    case unknown
    have "ident \<notin> fst ` set (collectors b)"
      using unknown(4) by (simp add: map_of_eq_None_iff)
    then show ?thesis using unknown by (simp add: Run_unknown)
  qed
qed

text \<open>
  A pass over the manager of the examples, whose collector \<^verbatim>\<open>vm\<close> fails: the error
  is logged, both collectors are called and the pass returns \<^verbatim>\<open>nil\<close>.
\<close>

theorem Run_collect_errors_contained_witness:
  "\<exists>b' evs. Run demo_Collect demo_builtins '''' = Some (None, b', evs) \<and>
     ''vm'' \<in> set (collect_calls evs) \<and>
     map_of (collectors demo_builtins) ''vm'' = Some (True, [(''load'', 7)]) \<and>
     fst (demo_Collect (True, [(''load'', 7)])) = Some ''probe failed'' \<and>
     LogError ''probe failed'' ''vm'' \<in> set evs \<and>
     collect_calls evs = [''cpu'', ''vm'']"
proof -
  obtain b' evs where r: "Run demo_Collect demo_builtins '''' = Some (None, b', evs)"
    and logged: "\<forall>k c err. k \<in> set (collect_calls evs) \<longrightarrow>
        map_of (collectors demo_builtins) k = Some c \<longrightarrow>
        fst (demo_Collect c) = Some err \<longrightarrow> LogError err k \<in> set evs"
    and calls: "collect_calls evs =
       (if collectors demo_builtins = [] \<or> running demo_builtins then []
        else if (''''::string) = '''' then map fst (collectors demo_builtins)
        else if '''' \<in> fst ` set (collectors demo_builtins) then ['''']
        else [])"
    using Run_collect_errors_contained[of demo_Collect demo_builtins "''''"]
    by (elim exE conjE) (rule that; assumption)
  have c: "collect_calls evs = [''cpu'', ''vm'']"
    using calls by (simp add: demo_builtins_def)
  have held: "map_of (collectors demo_builtins) ''vm'' = Some (True, [(''load'', 7)])"
    by (simp add: demo_builtins_def)
  have failed: "fst (demo_Collect (True, [(''load'', 7)])) = Some ''probe failed''"
    by (simp add: demo_Collect_def)
  have "LogError ''probe failed'' ''vm'' \<in> set evs"
    using logged held failed c by simp
  then show ?thesis using r c held failed by simp
qed

subsection \<open>The fan-out\<close>

text \<open>
  C5, as amended. When no run is in progress, \<^verbatim>\<open>Run(id)\<close> returns \<^verbatim>\<open>nil\<close> with
  the flag \<^verbatim>\<open>running\<close> clear again, and
  with a non-empty id that is a key of the map it calls \<^verbatim>\<open>Collect\<close> once, on the
  collector held under that key, and only that collector changes;
  with a non-empty id that is not a key it calls no \<^verbatim>\<open>Collect\<close> and changes no
  collector, and when the map is not empty the trace is the start time, the warning
  \<^verbatim>\<open>unknown builtin\<close> with the id, and the end of the pass;
  with the empty id it calls \<^verbatim>\<open>Collect\<close> on every held collector, once each, and the
  manager it returns holds every collector as its \<^verbatim>\<open>Collect\<close> left it; under every
  schedule of the goroutines \<^verbatim>\<open>wg.Wait()\<close> returns only when none of them is pending,
  and the collectors are then those of the manager returned.
\<close>

theorem Run_fan_out:
  assumes "\<not> running b"
  shows "\<exists>b' evs. Run c_Collect b ident = Some (None, b', evs) \<and> \<not> running b' \<and>
     (\<forall>c. ident \<noteq> '''' \<and> map_of (collectors b) ident = Some c \<longrightarrow>
        collect_calls evs = [ident] \<and>
        collectors b' = AList.update ident (snd (c_Collect c)) (collectors b)) \<and>
     (ident \<noteq> '''' \<and> ident \<notin> fst ` set (collectors b) \<longrightarrow>
        collect_calls evs = [] \<and> collectors b' = collectors b \<and>
        (collectors b \<noteq> [] \<longrightarrow>
           evs = [MapSet ''builtins'' ''last_start'',
                  LogWarn ''unknown builtin'' [(''id'', ident)],
                  LogDebug ''all builtins done'' [],
                  MapSet ''builtins'' ''last_end'',
                  MapSet ''builtins'' ''last_duration''])) \<and>
     (ident = '''' \<longrightarrow>
        collect_calls evs = map fst (collectors b) \<and>
        collectors b' = map (\<lambda>(k, c). (k, snd (c_Collect c))) (collectors b) \<and>
        (\<forall>s. reaches c_Collect (started (collectors b)) s \<and> \<not> waiting s \<longrightarrow>
           pending s = [] \<and> mset (finished s) = mset (collectors b')))"
proof -
  have barrier: "pending s = [] \<and>
      mset (finished s) = mset (map (\<lambda>(k, c). (k, snd (c_Collect c))) (collectors b))"
    if "reaches c_Collect (started (collectors b)) s \<and> \<not> waiting s" for s
    using that Wait_after_all by blast
  consider (empty) "collectors b = []"
    | (all) "collectors b \<noteq> []" "ident = ''''"
    | (one) c where "ident \<noteq> ''''" "map_of (collectors b) ident = Some c"
    | (unknown) "collectors b \<noteq> []" "ident \<noteq> ''''" "map_of (collectors b) ident = None"
    by (cases "map_of (collectors b) ident") auto
  then show ?thesis
  proof cases
    case empty
    then show ?thesis using assms barrier by (simp add: Run_empty)
  next
    case all
    then show ?thesis
      using assms barrier by (simp add: Run_all collect_calls_append collect_all_calls)
  next
    case one
    have "ident \<in> fst ` set (collectors b)"
      using one(2) by (rule map_of_Some_key)
    then show ?thesis
      using assms one by (simp add: Run_one collect_calls_append goroutine_calls)
  next
    case unknown
    have "ident \<notin> fst ` set (collectors b)"
      using unknown(3) by (simp add: map_of_eq_None_iff)
    then show ?thesis
      using assms unknown by (simp add: Run_unknown)
  qed
qed

text \<open>
  C5 as stated, without the condition, fails: with a run in progress \<^verbatim>\<open>Run("cpu")\<close> and
  \<^verbatim>\<open>Run("")\<close> on the manager of the examples, which holds \<^verbatim>\<open>cpu\<close>, stop at the
  re-entrancy guard and call no \<^verbatim>\<open>Collect\<close>.
\<close>

theorem Run_fan_out_counterexample:
  "''cpu'' \<in> fst ` set (collectors (demo_builtins\<lparr>running := True\<rparr>)) \<and>
   Run demo_Collect (demo_builtins\<lparr>running := True\<rparr>) ''cpu'' =
     Some (None, demo_builtins\<lparr>running := True\<rparr>, [LogWarn ''already in progress'' []]) \<and>
   Run demo_Collect (demo_builtins\<lparr>running := True\<rparr>) '''' =
     Some (None, demo_builtins\<lparr>running := True\<rparr>, [LogWarn ''already in progress'' []]) \<and>
   collect_calls [LogWarn ''already in progress'' []] = []"
  by (simp add: Run_def demo_builtins_def)

text \<open>
  A schedule of the pass over the manager of the examples: the goroutine of
  \<^verbatim>\<open>vm\<close> runs first, then that of \<^verbatim>\<open>cpu\<close>, then \<^verbatim>\<open>wg.Wait()\<close> returns.
\<close>

lemma demo_schedule:
  "reaches demo_Collect (started (collectors demo_builtins))
     \<lparr>pending = [],
      finished = [(''cpu'', (False, [(''load'', 2), (''idle'', 6)])),
                  (''vm'', (True, [(''load'', 7)]))],
      counter = 0, waiting = False\<rparr>"
proof -
  let ?R = "\<lambda>s t. t \<in> set (steps demo_Collect s)"
  let ?s0 = "started (collectors demo_builtins)"
  let ?s1 = "\<lparr>pending = [(''cpu'', (False, [(''load'', 1), (''idle'', 5)]))],
      finished = [(''vm'', (True, [(''load'', 7 :: nat)]))], counter = 1, waiting = True\<rparr>"
  let ?s2 = "\<lparr>pending = [],
      finished = [(''cpu'', (False, [(''load'', 2), (''idle'', 6)])),
                  (''vm'', (True, [(''load'', 7 :: nat)]))], counter = 0, waiting = True\<rparr>"
  let ?s3 = "\<lparr>pending = [],
      finished = [(''cpu'', (False, [(''load'', 2), (''idle'', 6)])),
                  (''vm'', (True, [(''load'', 7 :: nat)]))], counter = 0, waiting = False\<rparr>"
  have vm: "?R ?s0 ?s1"
    by (simp add: steps_def finish_def started_def demo_builtins_def goroutine_def
        demo_Collect_def)
  have cpu: "?R ?s1 ?s2"
    by (simp add: steps_def finish_def goroutine_def demo_Collect_def)
  have wait: "?R ?s2 ?s3"
    by (simp add: steps_def)
  have "?R\<^sup>*\<^sup>* ?s0 ?s1" using vm by (rule r_into_rtranclp)
  then have "?R\<^sup>*\<^sup>* ?s0 ?s2" using cpu by (rule rtranclp.rtrancl_into_rtrancl)
  then have "?R\<^sup>*\<^sup>* ?s0 ?s3" using wait by (rule rtranclp.rtrancl_into_rtrancl)
  then show ?thesis by (simp add: reaches_def)
qed

text \<open>
  The three cases on the manager of the examples with no run in progress: the held
  builtin \<^verbatim>\<open>cpu\<close>, the unknown builtin \<^verbatim>\<open>disk\<close>, and all builtins, with the
  schedule above.
\<close>

theorem Run_fan_out_witness:
  "\<not> running demo_builtins \<and>
   map_of (collectors demo_builtins) ''cpu'' = Some (False, [(''load'', 1), (''idle'', 5)]) \<and>
   (\<exists>b' evs. Run demo_Collect demo_builtins ''cpu'' = Some (None, b', evs) \<and>
      collect_calls evs = [''cpu''] \<and>
      collectors b' = [(''cpu'', (False, [(''load'', 2), (''idle'', 6)])),
                       (''vm'', (True, [(''load'', 7)]))]) \<and>
   ''disk'' \<notin> fst ` set (collectors demo_builtins) \<and>
   (\<exists>b' evs. Run demo_Collect demo_builtins ''disk'' = Some (None, b', evs) \<and>
      collect_calls evs = [] \<and>
      LogWarn ''unknown builtin'' [(''id'', ''disk'')] \<in> set evs) \<and>
   (\<exists>b' evs. Run demo_Collect demo_builtins '''' = Some (None, b', evs) \<and>
      collect_calls evs = [''cpu'', ''vm''] \<and>
      collectors b' = [(''cpu'', (False, [(''load'', 2), (''idle'', 6)])),
                       (''vm'', (True, [(''load'', 7)]))] \<and>
      reaches demo_Collect (started (collectors demo_builtins))
        \<lparr>pending = [],
         finished = [(''cpu'', (False, [(''load'', 2), (''idle'', 6)])),
                     (''vm'', (True, [(''load'', 7)]))],
         counter = 0, waiting = False\<rparr> \<and>
      mset [(''cpu'', (False, [(''load'', 2), (''idle'', 6)])),
            (''vm'', (True, [(''load'', 7)]))] = mset (collectors b'))"
proof -
  let ?s = "\<lparr>pending = [],
      finished = [(''cpu'', (False, [(''load'', 2), (''idle'', 6)])),
                  (''vm'', (True, [(''load'', 7 :: nat)]))],
      counter = 0, waiting = False\<rparr>"
  have idle: "\<not> running demo_builtins" by (simp add: demo_builtins_def)
  have held: "map_of (collectors demo_builtins) ''cpu'' = Some (False, [(''load'', 1), (''idle'', 5)])"
    by (simp add: demo_builtins_def)
  have unknown: "''disk'' \<notin> fst ` set (collectors demo_builtins)"
    by (simp add: demo_builtins_def)
  have one: "\<exists>b' evs. Run demo_Collect demo_builtins ''cpu'' = Some (None, b', evs) \<and>
      collect_calls evs = [''cpu''] \<and>
      collectors b' = [(''cpu'', (False, [(''load'', 2), (''idle'', 6)])),
                       (''vm'', (True, [(''load'', 7)]))]"
    using Run_fan_out[OF idle, of demo_Collect "''cpu''"] held
    by (auto simp add: demo_builtins_def demo_Collect_def)
  have none: "\<exists>b' evs. Run demo_Collect demo_builtins ''disk'' = Some (None, b', evs) \<and>
      collect_calls evs = [] \<and>
      LogWarn ''unknown builtin'' [(''id'', ''disk'')] \<in> set evs"
    using Run_fan_out[OF idle, of demo_Collect "''disk''"] unknown
    by (auto simp add: demo_builtins_def)
  obtain b' evs where r: "Run demo_Collect demo_builtins '''' = Some (None, b', evs)"
    and calls: "collect_calls evs = map fst (collectors demo_builtins)"
    and after: "collectors b' =
      map (\<lambda>(k, c). (k, snd (demo_Collect c))) (collectors demo_builtins)"
    and barrier: "\<forall>s. reaches demo_Collect (started (collectors demo_builtins)) s \<and> \<not> waiting s
      \<longrightarrow> pending s = [] \<and> mset (finished s) = mset (collectors b')"
    using Run_fan_out[OF idle, of demo_Collect "''''"] by auto
  have s: "reaches demo_Collect (started (collectors demo_builtins)) ?s" "\<not> waiting ?s"
    using demo_schedule by simp_all
  then have "pending ?s = [] \<and> mset (finished ?s) = mset (collectors b')"
    using barrier by blast
  then have "mset [(''cpu'', (False, [(''load'', 2), (''idle'', 6)])),
            (''vm'', (True, [(''load'', 7 :: nat)]))] = mset (collectors b')"
    by simp
  moreover have "collect_calls evs = [''cpu'', ''vm'']"
    using calls by (simp add: demo_builtins_def)
  moreover have "collectors b' = [(''cpu'', (False, [(''load'', 2), (''idle'', 6)])),
                       (''vm'', (True, [(''load'', 7)]))]"
    using after by (simp add: demo_builtins_def demo_Collect_def)
  ultimately have all: "\<exists>b' evs. Run demo_Collect demo_builtins '''' = Some (None, b', evs) \<and>
      collect_calls evs = [''cpu'', ''vm''] \<and>
      collectors b' = [(''cpu'', (False, [(''load'', 2), (''idle'', 6)])),
                       (''vm'', (True, [(''load'', 7)]))] \<and>
      reaches demo_Collect (started (collectors demo_builtins)) ?s \<and>
      mset [(''cpu'', (False, [(''load'', 2), (''idle'', 6)])),
            (''vm'', (True, [(''load'', 7 :: nat)]))] = mset (collectors b')"
    using r s(1) by blast
  show ?thesis using idle held unknown one none all by blast
qed

subsection \<open>Flush\<close>

lemma flush_fold_dom:
  "dom (fold (\<lambda>(_, c) metrics. metrics ++ f c) cs m0) = dom m0 \<union> (\<Union>(k, c) \<in> set cs. dom (f c))"
  by (induction cs arbitrary: m0) auto

lemma flush_fold_Some:
  "fold (\<lambda>(_, c) metrics. metrics ++ f c) cs m0 name = Some v \<Longrightarrow>
     m0 name = Some v \<or> (\<exists>(k, c) \<in> set cs. f c name = Some v)"
proof (induction cs arbitrary: m0)
  case Nil
  then show ?case by simp
next
  case (Cons p cs)
  obtain k c where p: "p = (k, c)" by (cases p)
  from Cons.prems have "fold (\<lambda>(_, c) metrics. metrics ++ f c) cs (m0 ++ f c) name = Some v"
    by (simp add: p)
  then have "(m0 ++ f c) name = Some v \<or> (\<exists>(k, c) \<in> set cs. f c name = Some v)"
    by (rule Cons.IH)
  then show ?case by (auto simp add: p map_add_Some_iff)
qed

lemma Flush_metrics:
  "fst (Flush f b ident) = fold (\<lambda>(_, c) metrics. metrics ++ f c) (collectors b) Map.empty"
  by (simp add: Flush_def Let_def)

text \<open>
  C2. In every state of the manager and for every id, the metrics returned by
  \<^verbatim>\<open>Flush(id)\<close> are the union of the metrics returned by \<^verbatim>\<open>Flush()\<close> of the held
  collectors: the names of the result are exactly the names of some collector's
  metrics, and the value under a name is the value some held collector returned under
  that name.
\<close>

theorem Flush_union:
  "dom (fst (Flush c_Flush b ident)) = (\<Union>(k, c) \<in> set (collectors b). dom (c_Flush c)) \<and>
   (\<forall>name v. fst (Flush c_Flush b ident) name = Some v \<longrightarrow>
      (\<exists>(k, c) \<in> set (collectors b). c_Flush c name = Some v))"
proof -
  have "dom (fst (Flush c_Flush b ident)) = (\<Union>(k, c) \<in> set (collectors b). dom (c_Flush c))"
    by (simp add: Flush_metrics flush_fold_dom)
  moreover have "\<exists>(k, c) \<in> set (collectors b). c_Flush c name = Some v"
    if "fst (Flush c_Flush b ident) name = Some v" for name v
    using that flush_fold_Some[of c_Flush "collectors b" Map.empty name v]
    by (simp add: Flush_metrics)
  ultimately show ?thesis by blast
qed

text \<open>
  On the manager of the examples both collectors return \<^verbatim>\<open>load\<close>; the result holds it
  once, with the value of \<^verbatim>\<open>vm\<close>, beside \<^verbatim>\<open>idle\<close> of \<^verbatim>\<open>cpu\<close>.
\<close>

theorem Flush_union_witness:
  "fst (Flush demo_Flush demo_builtins ''cpu'') ''load'' = Some 7 \<and>
   (\<exists>(k, c) \<in> set (collectors demo_builtins). demo_Flush c ''load'' = Some 7) \<and>
   dom (fst (Flush demo_Flush demo_builtins ''cpu'')) = {''load'', ''idle''}"
proof -
  have v: "fst (Flush demo_Flush demo_builtins ''cpu'') ''load'' = Some 7"
    by (simp add: Flush_def demo_Flush_def demo_builtins_def)
  have u: "dom (fst (Flush demo_Flush demo_builtins ''cpu'')) =
             (\<Union>(k, c) \<in> set (collectors demo_builtins). dom (demo_Flush c))"
    and h: "\<exists>(k, c) \<in> set (collectors demo_builtins). demo_Flush c ''load'' = Some 7"
    using Flush_union[of demo_Flush demo_builtins "''cpu''"] v by blast+
  have "(\<Union>(k, c) \<in> set (collectors demo_builtins). dom (demo_Flush c)) = {''load'', ''idle''}"
    by (auto simp add: demo_Flush_def demo_builtins_def)
  then show ?thesis using v u h by simp
qed

text \<open>
  C4. \<^verbatim>\<open>Flush(id)\<close> needs no \<^verbatim>\<open>Collect\<close> before it: it always returns (the model
  is a total function), a manager that holds no collectors returns the empty metrics,
  and so does a manager whose collectors all return empty metrics from their own
  \<^verbatim>\<open>Flush()\<close>, as a collector does that has collected nothing.
\<close>

theorem Flush_without_collect:
  "(collectors b = [] \<longrightarrow> fst (Flush c_Flush b ident) = Map.empty) \<and>
   ((\<forall>(k, c) \<in> set (collectors b). c_Flush c = Map.empty) \<longrightarrow>
      fst (Flush c_Flush b ident) = Map.empty)"
proof -
  have "fst (Flush c_Flush b ident) = Map.empty"
    if "\<forall>(k, c) \<in> set (collectors b). c_Flush c = Map.empty"
  proof -
    have "dom (fst (Flush c_Flush b ident)) = {}"
      using that by (auto simp add: Flush_metrics flush_fold_dom)
    then show ?thesis by simp
  qed
  then show ?thesis by auto
qed

text \<open>
  A manager without collectors, and a manager whose one collector has an empty cache.
\<close>

theorem Flush_without_collect_witness:
  "collectors \<lparr>collectors = [] :: (string \<times> bool \<times> (string \<times> nat) list) list, running = False\<rparr> = [] \<and>
   fst (Flush demo_Flush \<lparr>collectors = [], running = False\<rparr> '''') = Map.empty \<and>
   demo_Flush (False, []) = Map.empty \<and>
   fst (Flush demo_Flush \<lparr>collectors = [(''cpu'', (False, []))], running = False\<rparr> '''') = Map.empty"
  using Flush_without_collect[of "\<lparr>collectors = [], running = False\<rparr>" demo_Flush "''''"]
    Flush_without_collect[of "\<lparr>collectors = [(''cpu'', (False, []))], running = False\<rparr>" demo_Flush "''''"]
  by (simp add: demo_Flush_def)

text \<open>
  The order of the range shows in the result only under a name that two held
  collectors return: when no two collectors share a name, every order of the same
  entries gives the same metrics.
\<close>

lemma flush_fold_apply:
  assumes "\<forall>p \<in> set cs. \<forall>q \<in> set cs. p \<noteq> q \<longrightarrow> dom (f (snd p)) \<inter> dom (f (snd q)) = {}"
  shows "fold (\<lambda>(_, c) metrics. metrics ++ f c) cs m0 name = Some v \<longleftrightarrow>
           (\<exists>p \<in> set cs. f (snd p) name = Some v) \<or>
           (m0 name = Some v \<and> (\<forall>p \<in> set cs. f (snd p) name = None))"
  using assms
proof (induction cs arbitrary: m0)
  case Nil
  then show ?case by simp
next
  case (Cons p cs)
  obtain k c where p: "p = (k, c)" by (cases p)
  have disj: "\<forall>p \<in> set cs. \<forall>q \<in> set cs. p \<noteq> q \<longrightarrow> dom (f (snd p)) \<inter> dom (f (snd q)) = {}"
    using Cons.prems by simp
  have IH: "fold (\<lambda>(_, c) metrics. metrics ++ f c) cs (m0 ++ f c) name = Some v \<longleftrightarrow>
           (\<exists>q \<in> set cs. f (snd q) name = Some v) \<or>
           ((m0 ++ f c) name = Some v \<and> (\<forall>q \<in> set cs. f (snd q) name = None))"
    using Cons.IH[OF disj] .
  show ?case
  proof (cases "f c name")
    case None
    then have "(m0 ++ f c) name = m0 name" by (simp add: map_add_def)
    then show ?thesis using IH None by (auto simp add: p)
  next
    case (Some w)
    then have over: "(m0 ++ f c) name = Some w" by (simp add: map_add_def)
    have others: "f (snd q) name = None" if "q \<in> set cs" "q \<noteq> p" for q
    proof -
      have "dom (f (snd p)) \<inter> dom (f (snd q)) = {}" using Cons.prems that by simp
      then show ?thesis using Some p by auto
    qed
    have same: "f (snd q) name = Some w" if "q = p" for q
      using that Some p by simp
    show ?thesis
    proof
      assume "fold (\<lambda>(_, c) metrics. metrics ++ f c) (p # cs) m0 name = Some v"
      then have "(\<exists>q \<in> set cs. f (snd q) name = Some v) \<or> w = v"
        using IH over by (auto simp add: p)
      then show "(\<exists>q \<in> set (p # cs). f (snd q) name = Some v) \<or>
           (m0 name = Some v \<and> (\<forall>q \<in> set (p # cs). f (snd q) name = None))"
        using Some p by auto
    next
      assume r: "(\<exists>q \<in> set (p # cs). f (snd q) name = Some v) \<or>
           (m0 name = Some v \<and> (\<forall>q \<in> set (p # cs). f (snd q) name = None))"
      have "(\<exists>q \<in> set cs. f (snd q) name = Some v) \<or>
           ((m0 ++ f c) name = Some v \<and> (\<forall>q \<in> set cs. f (snd q) name = None))"
      proof (cases "\<exists>q \<in> set cs. f (snd q) name = Some v")
        case True
        then show ?thesis by simp
      next
        case False
        then have "w = v" using r Some p by auto
        moreover have "\<forall>q \<in> set cs. f (snd q) name = None"
        proof
          fix q assume q: "q \<in> set cs"
          show "f (snd q) name = None"
          proof (cases "q = p")
            case True
            then have "f (snd q) name = Some v" using same \<open>w = v\<close> by simp
            then show ?thesis using False q by blast
          next
            case False
            then show ?thesis using others q by simp
          qed
        qed
        ultimately show ?thesis using over by simp
      qed
      then show "fold (\<lambda>(_, c) metrics. metrics ++ f c) (p # cs) m0 name = Some v"
        using IH by (simp add: p)
    qed
  qed
qed

lemma flush_fold_order:
  assumes "set cs1 = set cs2"
    and "\<forall>p \<in> set cs1. \<forall>q \<in> set cs1. p \<noteq> q \<longrightarrow> dom (f (snd p)) \<inter> dom (f (snd q)) = {}"
  shows "fold (\<lambda>(_, c) metrics. metrics ++ f c) cs1 m0 = fold (\<lambda>(_, c) metrics. metrics ++ f c) cs2 m0"
proof
  fix name
  have "fold (\<lambda>(_, c) metrics. metrics ++ f c) cs1 m0 name = Some v \<longleftrightarrow>
        fold (\<lambda>(_, c) metrics. metrics ++ f c) cs2 m0 name = Some v" for v
    using flush_fold_apply[of cs1 f m0 name v] flush_fold_apply[of cs2 f m0 name v] assms
    by simp
  then show "fold (\<lambda>(_, c) metrics. metrics ++ f c) cs1 m0 name =
        fold (\<lambda>(_, c) metrics. metrics ++ f c) cs2 m0 name"
    by (metis option.exhaust)
qed

lemma Flush_order:
  assumes "set (collectors b1) = set (collectors b2)"
    and "\<forall>p \<in> set (collectors b1). \<forall>q \<in> set (collectors b1).
           p \<noteq> q \<longrightarrow> dom (c_Flush (snd p)) \<inter> dom (c_Flush (snd q)) = {}"
  shows "Flush c_Flush b1 id1 = Flush c_Flush b2 id2"
proof -
  have "fst (Flush c_Flush b1 id1) = fst (Flush c_Flush b2 id2)"
    using flush_fold_order[OF assms] by (simp add: Flush_metrics)
  moreover have "snd (Flush c_Flush b1 id1) = snd (Flush c_Flush b2 id2)"
    by (simp add: Flush_def Let_def)
  ultimately show ?thesis by (simp add: prod_eq_iff)
qed

text \<open>
  C9, as amended. The id given to \<^verbatim>\<open>Flush\<close> has no effect on the result. Two
  calls that range over the map in the same order return the same metrics and do the
  same writes, whatever their ids. Two calls that range over the same entries in any
  two orders return the same names, those of all held collectors and never a subset
  scoped to the id; and when no two held collectors return a metric under the same
  name they return the same metrics, whatever their ids and orders.
\<close>

theorem Flush_ignores_id:
  "Flush c_Flush b1 id1 = Flush c_Flush b1 id2 \<and>
   dom (fst (Flush c_Flush b1 id1)) = (\<Union>p \<in> set (collectors b1). dom (c_Flush (snd p))) \<and>
   (set (collectors b1) = set (collectors b2) \<longrightarrow>
      dom (fst (Flush c_Flush b1 id1)) = dom (fst (Flush c_Flush b2 id2))) \<and>
   (set (collectors b1) = set (collectors b2) \<and>
    (\<forall>p \<in> set (collectors b1). \<forall>q \<in> set (collectors b1).
        p \<noteq> q \<longrightarrow> dom (c_Flush (snd p)) \<inter> dom (c_Flush (snd q)) = {}) \<longrightarrow>
      Flush c_Flush b1 id1 = Flush c_Flush b2 id2)"
proof -
  have same_order: "Flush c_Flush b1 id1 = Flush c_Flush b1 id2"
    by (simp add: Flush_def)
  have names: "dom (fst (Flush c_Flush b1 id1)) =
      (\<Union>p \<in> set (collectors b1). dom (c_Flush (snd p)))"
    by (auto simp add: Flush_metrics flush_fold_dom)
  have names2: "dom (fst (Flush c_Flush b2 id2)) =
      (\<Union>p \<in> set (collectors b2). dom (c_Flush (snd p)))"
    by (auto simp add: Flush_metrics flush_fold_dom)
  have same_names: "dom (fst (Flush c_Flush b1 id1)) = dom (fst (Flush c_Flush b2 id2))"
    if "set (collectors b1) = set (collectors b2)"
    using that by (simp add: names names2)
  have same_metrics: "Flush c_Flush b1 id1 = Flush c_Flush b2 id2"
    if "set (collectors b1) = set (collectors b2)"
      "\<forall>p \<in> set (collectors b1). \<forall>q \<in> set (collectors b1).
        p \<noteq> q \<longrightarrow> dom (c_Flush (snd p)) \<inter> dom (c_Flush (snd q)) = {}"
    using that by (rule Flush_order)
  show ?thesis using same_order names same_names same_metrics by blast
qed

text \<open>
  C9 as stated, for every state and every two calls, fails when two collectors share
  a name: the code ranges over the Go map anew in each call, in an order Go leaves
  open, and the collector visited last wins. The manager of the examples holds
  \<^verbatim>\<open>load\<close> twice; visited in the order \<^verbatim>\<open>cpu\<close>, \<^verbatim>\<open>vm\<close> by
  \<^verbatim>\<open>Flush("cpu")\<close> and in the order \<^verbatim>\<open>vm\<close>, \<^verbatim>\<open>cpu\<close> by \<^verbatim>\<open>Flush("vm")\<close>, the
  same map gives 7 and 1.
\<close>

theorem Flush_ignores_id_counterexample:
  "set (collectors (demo_builtins\<lparr>collectors := rev (collectors demo_builtins)\<rparr>)) =
     set (collectors demo_builtins) \<and>
   fst (Flush demo_Flush demo_builtins ''cpu'') ''load'' = Some 7 \<and>
   fst (Flush demo_Flush (demo_builtins\<lparr>collectors := rev (collectors demo_builtins)\<rparr>) ''vm'')
     ''load'' = Some 1 \<and>
   fst (Flush demo_Flush demo_builtins ''cpu'') \<noteq>
     fst (Flush demo_Flush (demo_builtins\<lparr>collectors := rev (collectors demo_builtins)\<rparr>) ''vm'')"
proof -
  let ?b2 = "demo_builtins\<lparr>collectors := rev (collectors demo_builtins)\<rparr>"
  have same: "set (collectors ?b2) = set (collectors demo_builtins)" by simp
  have v1: "fst (Flush demo_Flush demo_builtins ''cpu'') ''load'' = Some 7"
    by (simp add: Flush_def demo_Flush_def demo_builtins_def)
  have v2: "fst (Flush demo_Flush ?b2 ''vm'') ''load'' = Some 1"
    by (simp add: Flush_def demo_Flush_def demo_builtins_def)
  have "fst (Flush demo_Flush demo_builtins ''cpu'') \<noteq> fst (Flush demo_Flush ?b2 ''vm'')"
  proof
    assume "fst (Flush demo_Flush demo_builtins ''cpu'') = fst (Flush demo_Flush ?b2 ''vm'')"
    then have "fst (Flush demo_Flush demo_builtins ''cpu'') ''load'' =
        fst (Flush demo_Flush ?b2 ''vm'') ''load''"
      by simp
    then show False using v1 v2 by simp
  qed
  then show ?thesis using same v1 v2 by blast
qed

text \<open>
  Two collectors with different names, \<^verbatim>\<open>idle\<close> and \<^verbatim>\<open>load\<close>, flushed in both
  orders under two ids.
\<close>

theorem Flush_ignores_id_witness:
  "set [(''cpu'', (False, [(''idle'', 5 :: nat)])), (''vm'', (True, [(''load'', 7)]))] =
     set [(''vm'', (True, [(''load'', 7)])), (''cpu'', (False, [(''idle'', 5)]))] \<and>
   dom (demo_Flush (False, [(''idle'', 5)])) \<inter> dom (demo_Flush (True, [(''load'', 7)])) = {} \<and>
   Flush demo_Flush
     \<lparr>collectors = [(''cpu'', (False, [(''idle'', 5)])), (''vm'', (True, [(''load'', 7)]))],
      running = False\<rparr> ''cpu'' =
   Flush demo_Flush
     \<lparr>collectors = [(''vm'', (True, [(''load'', 7)])), (''cpu'', (False, [(''idle'', 5)]))],
      running = False\<rparr> ''vm'' \<and>
   fst (Flush demo_Flush
     \<lparr>collectors = [(''vm'', (True, [(''load'', 7)])), (''cpu'', (False, [(''idle'', 5)]))],
      running = False\<rparr> ''vm'') ''load'' = Some 7"
proof -
  let ?b1 = "\<lparr>collectors = [(''cpu'', (False, [(''idle'', 5 :: nat)])),
      (''vm'', (True, [(''load'', 7)]))], running = False\<rparr>"
  let ?b2 = "\<lparr>collectors = [(''vm'', (True, [(''load'', 7 :: nat)])),
      (''cpu'', (False, [(''idle'', 5)]))], running = False\<rparr>"
  have same: "set (collectors ?b1) = set (collectors ?b2)" by auto
  have apart: "dom (demo_Flush (False, [(''idle'', 5)])) \<inter>
      dom (demo_Flush (True, [(''load'', 7)])) = {}"
    by (simp add: demo_Flush_def)
  then have disjoint: "\<forall>p \<in> set (collectors ?b1). \<forall>q \<in> set (collectors ?b1).
      p \<noteq> q \<longrightarrow> dom (demo_Flush (snd p)) \<inter> dom (demo_Flush (snd q)) = {}"
    by auto
  have "Flush demo_Flush ?b1 ''cpu'' = Flush demo_Flush ?b2 ''vm''"
    using Flush_ignores_id[of demo_Flush ?b1 "''cpu''" "''vm''" ?b2] same disjoint by blast
  moreover have "fst (Flush demo_Flush ?b2 ''vm'') ''load'' = Some 7"
    by (simp add: Flush_def demo_Flush_def)
  ultimately show ?thesis using same apart by simp
qed

section \<open>Properties of the pre-run hook\<close>

text \<open>
  C8. With the debug flag unset and a log level configured, the hook returns the error
  \<^verbatim>\<open>Unknown log level (<level>)\<close> for every level that is not one of \<^verbatim>\<open>panic\<close>,
  \<^verbatim>\<open>fatal\<close>, \<^verbatim>\<open>error\<close>, \<^verbatim>\<open>warn\<close>, \<^verbatim>\<open>info\<close>, \<^verbatim>\<open>debug\<close> and \<^verbatim>\<open>disabled\<close>, and for each
  of these seven it returns \<^verbatim>\<open>nil\<close> and sets the global level to
  \<^verbatim>\<open>PanicLevel\<close>, \<^verbatim>\<open>FatalLevel\<close>, \<^verbatim>\<open>ErrorLevel\<close>, \<^verbatim>\<open>WarnLevel\<close>, \<^verbatim>\<open>InfoLevel\<close>,
  \<^verbatim>\<open>DebugLevel\<close> and \<^verbatim>\<open>Disabled\<close>.
\<close>

theorem PersistentPreRunE_log_level:
  assumes "\<not> KeyDebug (store s)" and "KeyLogLevel (store s) = Some level"
  shows "(level \<notin> {''panic'', ''fatal'', ''error'', ''warn'', ''info'', ''debug'', ''disabled''} \<longrightarrow>
            fst (PersistentPreRunE s) = Some (''Unknown log level ('' @ level @ '')'')) \<and>
         (level = ''panic'' \<longrightarrow> fst (PersistentPreRunE s) = None \<and>
            GlobalLevel (snd (PersistentPreRunE s)) = PanicLevel) \<and>
         (level = ''fatal'' \<longrightarrow> fst (PersistentPreRunE s) = None \<and>
            GlobalLevel (snd (PersistentPreRunE s)) = FatalLevel) \<and>
         (level = ''error'' \<longrightarrow> fst (PersistentPreRunE s) = None \<and>
            GlobalLevel (snd (PersistentPreRunE s)) = ErrorLevel) \<and>
         (level = ''warn'' \<longrightarrow> fst (PersistentPreRunE s) = None \<and>
            GlobalLevel (snd (PersistentPreRunE s)) = WarnLevel) \<and>
         (level = ''info'' \<longrightarrow> fst (PersistentPreRunE s) = None \<and>
            GlobalLevel (snd (PersistentPreRunE s)) = InfoLevel) \<and>
         (level = ''debug'' \<longrightarrow> fst (PersistentPreRunE s) = None \<and>
            GlobalLevel (snd (PersistentPreRunE s)) = DebugLevel) \<and>
         (level = ''disabled'' \<longrightarrow> fst (PersistentPreRunE s) = None \<and>
            GlobalLevel (snd (PersistentPreRunE s)) = Disabled)"
  using assms by (simp add: PersistentPreRunE_def)

text \<open>An unknown level and a known one, from the state \<^verbatim>\<open>init()\<close> leaves.\<close>

theorem PersistentPreRunE_log_level_witness:
  "\<not> KeyDebug (store (init_logging \<lparr>KeyLogPretty = False, KeyDebug = False, KeyLogLevel = Some ''verbose''\<rparr>)) \<and>
   ''verbose'' \<notin> {''panic'', ''fatal'', ''error'', ''warn'', ''info'', ''debug'', ''disabled''} \<and>
   fst (PersistentPreRunE (init_logging \<lparr>KeyLogPretty = False, KeyDebug = False, KeyLogLevel = Some ''verbose''\<rparr>))
     = Some ''Unknown log level (verbose)'' \<and>
   fst (PersistentPreRunE (init_logging \<lparr>KeyLogPretty = False, KeyDebug = False, KeyLogLevel = Some ''warn''\<rparr>))
     = None \<and>
   GlobalLevel (snd (PersistentPreRunE (init_logging \<lparr>KeyLogPretty = False, KeyDebug = False, KeyLogLevel = Some ''warn''\<rparr>)))
     = WarnLevel"
  using
    PersistentPreRunE_log_level[of
      "init_logging \<lparr>KeyLogPretty = False, KeyDebug = False, KeyLogLevel = Some ''verbose''\<rparr>"
      "''verbose''"]
    PersistentPreRunE_log_level[of
      "init_logging \<lparr>KeyLogPretty = False, KeyDebug = False, KeyLogLevel = Some ''warn''\<rparr>"
      "''warn''"]
  by (simp add: init_logging_def)

text \<open>
  C10. With the debug flag set, the hook returns \<^verbatim>\<open>nil\<close>, sets the global level to
  \<^verbatim>\<open>DebugLevel\<close> and overwrites the configured log level with \<^verbatim>\<open>debug\<close>, whatever
  the configured level was: the error of an unknown level cannot occur.
\<close>

theorem PersistentPreRunE_debug:
  assumes "KeyDebug (store s)"
  shows "fst (PersistentPreRunE s) = None \<and>
         GlobalLevel (snd (PersistentPreRunE s)) = DebugLevel \<and>
         KeyLogLevel (store (snd (PersistentPreRunE s))) = Some ''debug''"
  using assms by (simp add: PersistentPreRunE_def)

text \<open>The debug flag with the unknown level \<^verbatim>\<open>verbose\<close>.\<close>

theorem PersistentPreRunE_debug_witness:
  "KeyDebug (store (init_logging \<lparr>KeyLogPretty = False, KeyDebug = True, KeyLogLevel = Some ''verbose''\<rparr>)) \<and>
   PersistentPreRunE (init_logging \<lparr>KeyLogPretty = False, KeyDebug = True, KeyLogLevel = Some ''verbose''\<rparr>) =
     (None,
      \<lparr>store = \<lparr>KeyLogPretty = False, KeyDebug = True, KeyLogLevel = Some ''debug''\<rparr>,
       GlobalLevel = DebugLevel, ConsoleWriter = False,
       debug_lines = [(''--debug flag, forcing debug log level'', [])]\<rparr>)"
  using PersistentPreRunE_debug[of
      "init_logging \<lparr>KeyLogPretty = False, KeyDebug = True, KeyLogLevel = Some ''verbose''\<rparr>"]
  by (simp add: init_logging_def PersistentPreRunE_def)

section \<open>Properties of the validation\<close>

lemma Validate_plugin_empty:
  "KeyPluginDir cfg = '''' \<Longrightarrow>
     Validate w cfg = Some ''plugin directory config: Invalid plugin directory ()''"
  by (simp add: Validate_def plugin_directory_def Wrap_def)


text \<open>
  The model passes \<^verbatim>\<open>TestValidate\<close>: its six calls of \<^verbatim>\<open>Validate\<close>, with the
  options the test has set by then, return what the test expects.
\<close>

lemma TestValidate_passes:
  "Validate test_world test_options =
     Some ''plugin directory config: Invalid plugin directory ()'' \<and>
   Validate test_world (test_options\<lparr>KeyPluginDir := ''testdata''\<rparr>) = None \<and>
   Validate test_world (test_options\<lparr>KeyPluginDir := ''testdata'', KeyListen := ''1.2.3''\<rparr>) =
     Some (''server config: Invalid IP address format specified '' @ [CHR 0x27] @ ''1.2.3'' @ [CHR 0x27]) \<and>
   Validate test_world (test_options\<lparr>KeyPluginDir := ''testdata'', KeySSLListen := ''1.2.3''\<rparr>) =
     Some (''ssl server config: Invalid IP address format specified '' @ [CHR 0x27] @ ''1.2.3'' @ [CHR 0x27]) \<and>
   Validate test_world (test_options\<lparr>KeyPluginDir := ''testdata'', KeySSLListen := ''127.0.0.1:2610''\<rparr>) =
     Some ''ssl server config: SSL cert: Invalid file name (empty)'' \<and>
   Validate test_world (test_options\<lparr>KeyPluginDir := ''testdata'', KeySSLListen := ''127.0.0.1:2610'',
       KeySSLCertFile := ''testdata/ssl_test.pem'', KeySSLKeyFile := ''testdata/ssl_test.key''\<rparr>) = None"
  by (simp add: Validate_def plugin_directory_def server_settings_def ssl_server_settings_def
      verify_file_def Wrap_def test_world_def test_options_def)

text \<open>
  C6. For every configuration whose plugin directory is the empty string
  \<^verbatim>\<open>Validate\<close> returns the error
  \<^verbatim>\<open>plugin directory config: Invalid plugin directory ()\<close>, and \<^verbatim>\<open>PreRunE\<close>,
  asked neither for the version nor for the configuration, returns this error instead
  of letting the agent start; for a configuration
  whose plugin directory is an existing directory and whose listen and SSL options
  pass their checks it returns \<^verbatim>\<open>nil\<close>.
\<close>

theorem Validate_plugin_directory:
  "(KeyPluginDir cfg = '''' \<longrightarrow>
      Validate w cfg = Some ''plugin directory config: Invalid plugin directory ()'' \<and>
      PreRunE False False (Validate w cfg) =
        Return (Some ''plugin directory config: Invalid plugin directory ()'')) \<and>
   (KeyPluginDir cfg \<noteq> '''' \<and> dir_error w (KeyPluginDir cfg) = None \<and>
    server_settings w cfg = None \<and> ssl_server_settings w cfg = None \<longrightarrow>
      Validate w cfg = None)"
proof -
  have refused: "Validate w cfg = Some ''plugin directory config: Invalid plugin directory ()''"
    if "KeyPluginDir cfg = ''''"
    using that by (rule Validate_plugin_empty)
  have returned: "PreRunE False False (Validate w cfg) = Return (Validate w cfg)"
    by (simp add: PreRunE_def split: option.splits)
  have accepted: "Validate w cfg = None"
    if "KeyPluginDir cfg \<noteq> ''''" "dir_error w (KeyPluginDir cfg) = None"
      "server_settings w cfg = None" "ssl_server_settings w cfg = None"
    using that by (simp add: Validate_def plugin_directory_def)
  show ?thesis using refused returned accepted by auto
qed

text \<open>The first two calls of \<^verbatim>\<open>TestValidate\<close>.\<close>

theorem Validate_plugin_directory_witness:
  "KeyPluginDir test_options = '''' \<and>
   Validate test_world test_options =
     Some ''plugin directory config: Invalid plugin directory ()'' \<and>
   PreRunE False False (Validate test_world test_options) =
     Return (Some ''plugin directory config: Invalid plugin directory ()'') \<and>
   KeyPluginDir (test_options\<lparr>KeyPluginDir := ''testdata''\<rparr>) \<noteq> '''' \<and>
   dir_error test_world (KeyPluginDir (test_options\<lparr>KeyPluginDir := ''testdata''\<rparr>)) = None \<and>
   server_settings test_world (test_options\<lparr>KeyPluginDir := ''testdata''\<rparr>) = None \<and>
   ssl_server_settings test_world (test_options\<lparr>KeyPluginDir := ''testdata''\<rparr>) = None \<and>
   Validate test_world (test_options\<lparr>KeyPluginDir := ''testdata''\<rparr>) = None"
proof -
  let ?cfg = "test_options\<lparr>KeyPluginDir := ''testdata''\<rparr>"
  have unset: "KeyPluginDir test_options = ''''"
    by (simp add: test_options_def)
  have valid: "KeyPluginDir ?cfg \<noteq> ''''" "dir_error test_world (KeyPluginDir ?cfg) = None"
    "server_settings test_world ?cfg = None" "ssl_server_settings test_world ?cfg = None"
    by (simp_all add: test_options_def test_world_def server_settings_def
        ssl_server_settings_def)
  have "Validate test_world test_options =
      Some ''plugin directory config: Invalid plugin directory ()'' \<and>
    PreRunE False False (Validate test_world test_options) =
      Return (Some ''plugin directory config: Invalid plugin directory ()'')"
    using Validate_plugin_directory[of test_options test_world] unset by blast
  moreover have "Validate test_world ?cfg = None"
    using Validate_plugin_directory[of ?cfg test_world] valid by blast
  ultimately show ?thesis using unset valid by blast
qed




end
